theory Spec2Isabelle
  imports Main "HOL-Library.Word"
begin

unbundle bit_operations_syntax

section \<open>Data model of trie/stacktrie.go\<close>

type_synonym byte = "8 word"

text \<open>
  Every way the Go code can stop: the three \<open>panic\<close> calls of \<open>TryUpdate\<close> and
  \<open>insert\<close>, and the faults the Go runtime raises by itself (an index or a slice bound
  out of range, a method reading a field through a nil pointer).
\<close>

datatype panic =
    DeletionNotSupported
  | InsertIntoExistingKey
  | InsertIntoHash
  | IndexOutOfRange
  | NilDereference

text \<open>The constants \<open>branchNode = iota ... hashedNode\<close>; no other value is ever stored
  in \<open>nodeType\<close>, so the \<open>default\<close> branches of the two switches have no counterpart.\<close>

datatype nodeType = branchNode | extNode | leafNode | emptyNode | hashedNode

text \<open>The struct \<open>ReStackTrie\<close>. A nil pointer is \<open>None\<close>; \<open>children\<close> is the
  array of 16 slots. Every node is owned by one slot, so the pointer structure is a tree.\<close>

datatype ReStackTrie =
  Node (nodeType: nodeType) (val: "byte list") (key: "byte list") (keyOffset: nat)
       (children: "ReStackTrie option list")

definition noChildren :: "ReStackTrie option list" where
  "noChildren = replicate 16 None"

definition NewReStackTrie :: ReStackTrie where
  "NewReStackTrie = Node emptyNode [] [] 0 noChildren"

text \<open>Reading slot \<open>i\<close> of the children array. The array has 16 slots in every node the
  operations below build; a slot a list does not have reads as nil.\<close>

definition child :: "ReStackTrie option list \<Rightarrow> nat \<Rightarrow> ReStackTrie option" where
  "child cs i = (if i < length cs then cs ! i else None)"

text \<open>Modelled from the spec: \<open>keybytesToHex\<close> is declared in a file that is not under
  src/. The spec (section 3, Nibble): a byte key is expanded to a sequence of nibbles, the
  high nibble of each byte first, then the low nibble, and the sequence is terminated with
  the sentinel nibble 16.\<close>

fun keybytesToHex :: "byte list \<Rightarrow> byte list" where
  "keybytesToHex [] = [16]"
| "keybytesToHex (b # bs) = drop_bit 4 b # (b AND 15) # keybytesToHex bs"

text \<open>Modelled from the spec: the constant \<open>emptyRoot\<close> is declared in a file that is not
  under src/. The spec (section 4.3, Empty-trie root) gives its 32 bytes.\<close>

definition emptyRoot :: "byte list" where
  "emptyRoot =
    [0x56, 0xe8, 0x1f, 0x17, 0x1b, 0xcc, 0x55, 0xa6, 0xff, 0x83, 0x45, 0xe6, 0x92, 0xc0, 0xf8, 0x6e,
     0x5b, 0x48, 0xe0, 0x1b, 0x99, 0x6c, 0xad, 0xc0, 0x01, 0x62, 0x2f, 0xb5, 0xe3, 0x63, 0xb4, 0x21]"

section \<open>The two leaf/extension encoders\<close>

text \<open>\<open>copy(buf[pos:], src)\<close> on a buffer with \<open>pos \<le> len(buf)\<close>: as many bytes as fit.\<close>

definition copyAt :: "byte list \<Rightarrow> nat \<Rightarrow> byte list \<Rightarrow> byte list" where
  "copyAt buf pos src =
     take pos buf @ take (length buf - pos) src @ drop (pos + length src) buf"

text \<open>The loop \<open>for i, nibble := range key\<close> of \<open>rawHPRLP\<close>; \<open>n\<close> is \<open>len(key)\<close>.
  A write past the 32 bytes of \<open>payload\<close> is a runtime panic.\<close>

fun rawHPRLP_nibbles ::
  "nat \<Rightarrow> nat \<Rightarrow> byte list \<Rightarrow> byte list \<Rightarrow> nat \<Rightarrow> panic + (byte list \<times> nat)" where
  "rawHPRLP_nibbles n i [] payload pos = Inr (payload, pos)"
| "rawHPRLP_nibbles n i (nibble # rest) payload pos =
     (let offset = 1 - (n + i) mod 2 in
      if pos < length payload then
        rawHPRLP_nibbles n (i + 1) rest
          (payload[pos := (payload ! pos) OR push_bit (4 * offset) nibble])
          (if offset = 0 then pos + 1 else pos)
      else Inl IndexOutOfRange)"

text \<open>The block \<open>if len(key) > 0 { ... }\<close> of \<open>rawHPRLP\<close>.\<close>

definition rawHPRLP_key ::
  "byte list \<Rightarrow> bool \<Rightarrow> nat \<Rightarrow> byte list \<Rightarrow> panic + (byte list \<times> nat)" where
  "rawHPRLP_key k leaf key_header_len payload0 =
     (let payload1 = (if key_header_len = 1
                      then payload0[1 := of_nat (1 + length k div 2)] else payload0);
          pos1 = (if key_header_len = 1 then 2 else 1);
          payload2 = payload1[pos1 := of_nat (16 * (length k mod 2))];
          payload3 = (if leaf then payload2[pos1 := (payload2 ! pos1) OR 32] else payload2);
          pos2 = (if length k mod 2 = 0 then pos1 + 1 else pos1)
      in rawHPRLP_nibbles (length k) 0 k payload3 pos2)"

text \<open>The tail of \<open>rawHPRLP\<close>, from \<open>// copy value data\<close> on. \<open>val[0]\<close> is read when
  \<open>len(val) > 1\<close> is false, so an empty value is a runtime panic.\<close>

definition rawHPRLP_val :: "byte list \<Rightarrow> byte list \<Rightarrow> nat \<Rightarrow> panic + byte list" where
  "rawHPRLP_val v payload pos =
     (if v = [] then Inl IndexOutOfRange
      else
        (let hdr = (length v > 1 \<or> hd v \<ge> 128) in
         if hdr \<and> \<not> pos < length payload then Inl IndexOutOfRange
         else
           (let payload1 = (if hdr
                  then payload[pos := of_nat (length v) + (if length v > 1 then 128 else 0)]
                  else payload);
                pos1 = (if hdr then pos + 1 else pos)
            in if pos1 > length payload then Inl IndexOutOfRange
               else
                 (let payload2 = copyAt payload1 pos1 v;
                      pos2 = pos1 + length v
                  in if pos2 = 2 then Inr (take 1 (drop 1 payload2))
                     else if pos2 > length payload2 then Inl IndexOutOfRange
                     else Inr (take pos2 payload2)))))"

definition rawHPRLP :: "byte list \<Rightarrow> byte list \<Rightarrow> bool \<Rightarrow> panic + byte list" where
  "rawHPRLP k v leaf =
     (let val_header_len = (if length v = 1 \<and> hd v < 128 then 0 else (1::nat));
          key_header_len = (if length k \<le> 1 then 0 else (1::nat));
          hplen = (if length k = 0 then 0 else (1::nat));
          payload = (replicate 32 0)
            [0 := 192 + of_nat (hplen + key_header_len + length k div 2 + val_header_len + length v)]
      in case (if length k > 0 then rawHPRLP_key k leaf key_header_len payload
               else Inr (payload, 1)) of
           Inl e \<Rightarrow> Inl e
         | Inr (payload', pos) \<Rightarrow> rawHPRLP_val v payload' pos)"

text \<open>The loop \<open>for i, nibble := range key\<close> of \<open>writeHPRLP\<close>: the bytes it writes.
  \<open>m\<close> is the variable of that name.\<close>

fun writeHPRLP_nibbles :: "nat \<Rightarrow> nat \<Rightarrow> byte \<Rightarrow> byte list \<Rightarrow> byte list" where
  "writeHPRLP_nibbles keyOff i m [] = []"
| "writeHPRLP_nibbles keyOff i m (nibble # rest) =
     (if i \<ge> keyOff then
        (if (i - keyOff) mod 2 = 0 then writeHPRLP_nibbles keyOff (i + 1) nibble rest
         else (m * 16 + nibble) # writeHPRLP_nibbles keyOff (i + 1) m rest)
      else writeHPRLP_nibbles keyOff (i + 1) m rest)"

text \<open>\<open>writeHPRLP\<close>: the result is the concatenation of everything written to \<open>writer\<close>.
  \<open>val[0]\<close> is read when \<open>len(val) \<le> 1\<close>, so an empty value is a runtime panic.\<close>

definition writeHPRLP :: "byte list \<Rightarrow> byte list \<Rightarrow> bool \<Rightarrow> panic + byte list" where
  "writeHPRLP k v leaf =
     (let hp = (if leaf then 32 else 0 :: byte);
          header0 = replicate 4 (0::byte);
          header1 = (if length k mod 2 = 0 then header0[3 := hp]
                     else header0[3 := hp OR hd k OR 16]);
          keyOff = (if length k mod 2 = 0 then 0 else (1::nat));
          keyByteSize = (of_nat (length k div 2) :: byte);
          keyHdr = (length k > 1 \<or> header1 ! 3 > 128);
          header2 = (if keyHdr then header1[2 := 0x80 + keyByteSize + 1] else header1);
          headerPos = (if keyHdr then 1 else (2::nat))
      in if v = [] then Inl IndexOutOfRange
         else
           (let valHeaderLen = (if length v > 56 then 2
                                else if length v = 1 \<and> hd v < 128 then 0 else (1::nat));
                payloadSize = unat keyByteSize + (4 - headerPos - 1) + valHeaderLen + length v;
                header3 = (if payloadSize > 56
                           then header2[headerPos := of_nat payloadSize, headerPos - 1 := 0xf8]
                           else header2[headerPos := 0xc0 + of_nat payloadSize]);
                start = (if payloadSize > 56 then headerPos - 1 else headerPos)
            in Inr (drop start header3
                    @ writeHPRLP_nibbles keyOff 0 0 k
                    @ (if length v > 56 then [0xb8, of_nat (length v)]
                       else if length v > 1 \<or> hd v \<ge> 128 then [0x80 + of_nat (length v)]
                       else [])
                    @ v)))"

section \<open>Hashing\<close>

text \<open>
  The Keccak-256 sponge comes from an external library; it is the parameter \<open>K\<close> of
  everything below: \<open>K bs\<close> is \<open>d.Sum(nil)\<close> after the bytes \<open>bs\<close> were written to \<open>d\<close>.
\<close>

type_synonym keccak = "byte list \<Rightarrow> byte list"

text \<open>The loop over \<open>st.children\<close> in the \<open>branchNode\<close> case of \<open>hash\<close>. The list holds,
  for each slot, what \<open>v.hash()\<close> returned (\<open>None\<close> for a nil slot); \<open>acc\<close> is
  \<open>payload[3:pos]\<close>, so \<open>pos = 3 + length acc\<close>, and a write past the 544 bytes of
  \<open>payload\<close> is a runtime panic.\<close>

fun branchItems ::
  "(panic + (byte list \<times> ReStackTrie)) option list \<Rightarrow> byte list \<Rightarrow> panic + byte list" where
  "branchItems [] acc = Inr acc"
| "branchItems (None # rs) acc =
     (if 3 + length acc < 544 then branchItems rs (acc @ [0x80]) else Inl IndexOutOfRange)"
| "branchItems (Some (Inl e) # rs) acc = Inl e"
| "branchItems (Some (Inr (childhash, c')) # rs) acc =
     (if length childhash = 1 \<and> hd childhash < 128 then
        (if 3 + length acc < 544 then branchItems rs (acc @ childhash)
         else Inl IndexOutOfRange)
      else
        (if 3 + length acc < 544 \<and> 3 + length acc + 1 + length childhash \<le> 544
         then branchItems rs (acc @ [128 + of_nat (length childhash)] @ childhash)
         else Inl IndexOutOfRange))"

text \<open>The header of the branch (\<open>var start int ...\<close>): one, two or three bytes in front
  of the payload of \<open>pos - 3\<close> bytes, here the list \<open>acc\<close>.\<close>

definition branchHeader :: "byte list \<Rightarrow> byte list" where
  "branchHeader acc =
     (let n = length acc in
      if n < 56 then [0xc0 + of_nat n]
      else if n < 256 then [0xf8, of_nat n]
      else [0xf9, of_nat (n div 256), of_nat n])"

text \<open>The small path of the \<open>extNode\<close> case, taken when
  \<open>len(st.key)/2 + 1 + len(ch) < 29\<close>, which keeps every index below inside the 32 bytes
  of \<open>rlp\<close>.\<close>

fun extSmall_nibbles :: "nat \<Rightarrow> nat \<Rightarrow> byte list \<Rightarrow> byte list \<Rightarrow> byte list" where
  "extSmall_nibbles n i [] rlp = rlp"
| "extSmall_nibbles n i (x # rest) rlp =
     extSmall_nibbles n (i + 1) rest
       (rlp[3 - n mod 2 + i div 2 := push_bit (4 * ((i + 1 + n) mod 2)) x])"

definition extSmall :: "byte list \<Rightarrow> byte list \<Rightarrow> byte list" where
  "extSmall k ch =
     (let rlp0 = replicate 32 (0::byte);
          rlp1 = (if length k mod 2 = 0 then rlp0[2 := 0] else rlp0[2 := 16 + hd k]);
          rlp2 = rlp1[1 := of_nat (128 + 1 + length k div 2)];
          rlp3 = extSmall_nibbles (length k) 0 k rlp2;
          rlp4 = copyAt rlp3 (3 + length k div 2) ch;
          rlp5 = rlp4[0 := of_nat (192 + 2 + length k div 2 + length ch)]
      in take (3 + length k div 2 + length ch) rlp5)"

lemma slot_size:
  "Some c \<in> set cs \<Longrightarrow> size c < Suc (size_list (size_option size) cs)"
proof -
  assume "Some c \<in> set cs"
  then have "size_option size (Some c) \<le> size_list (size_option size) cs"
    by (simp add: size_list_estimation')
  then show ?thesis by simp
qed

lemma child_size:
  "child cs i = Some c \<Longrightarrow> size c < Suc (size_list (size_option size) cs)"
proof -
  assume "child cs i = Some c"
  then have "i < length cs" and "cs ! i = Some c"
    by (auto simp: child_def split: if_splits)
  then have "Some c \<in> set cs" by (metis nth_mem)
  then show ?thesis by (rule slot_size)
qed

text \<open>\<open>hash\<close>: the bytes returned, and the node as the call leaves it (the branch case
  sets every child it has hashed to nil, the sponge path of the extension case sets
  \<open>children[0]\<close> to nil).\<close>

function hash :: "keccak \<Rightarrow> ReStackTrie \<Rightarrow> panic + (byte list \<times> ReStackTrie)" where
  "hash K (Node hashedNode v k off cs) = Inr (v, Node hashedNode v k off cs)"
| "hash K (Node branchNode v k off cs) =
     (case branchItems (map (map_option (hash K)) cs) [] of
        Inl e \<Rightarrow> Inl e
      | Inr acc \<Rightarrow>
          (if 3 + length acc < 544 then
             (let payload = branchHeader (acc @ [0x80]) @ acc @ [0x80];
                  st' = Node branchNode v k off (map (\<lambda>c. None) cs)
              in if length payload < 32 then Inr (payload, st') else Inr (K payload, st'))
           else Inl IndexOutOfRange))"
| "hash K (Node extNode v k off cs) =
     (case child cs 0 of
        None \<Rightarrow> Inl NilDereference
      | Some c \<Rightarrow>
          (case hash K c of
             Inl e \<Rightarrow> Inl e
           | Inr (ch, c') \<Rightarrow>
               (if length k div 2 + 1 + length ch < 29
                then Inr (extSmall k ch, Node extNode v k off (cs[0 := Some c']))
                else (case writeHPRLP k ch False of
                        Inl e \<Rightarrow> Inl e
                      | Inr bs \<Rightarrow> Inr (K bs, Node extNode v k off (cs[0 := None]))))))"
| "hash K (Node leafNode v k off cs) =
     (if length k div 2 + 1 + length v < 29
      then (case rawHPRLP k v True of
              Inl e \<Rightarrow> Inl e
            | Inr bs \<Rightarrow> Inr (bs, Node leafNode v k off cs))
      else (case writeHPRLP k v True of
              Inl e \<Rightarrow> Inl e
            | Inr bs \<Rightarrow> Inr (K bs, Node leafNode v k off cs)))"
| "hash K (Node emptyNode v k off cs) = Inr (emptyRoot, Node emptyNode v k off cs)"
  by pat_completeness auto
termination
  apply (relation "measure (\<lambda>(K, st). size st)")
    apply simp
  subgoal for K v k off cs x a
    using slot_size [of a cs] by simp
  subgoal for K v k off cs x2
    using child_size [of cs 0 x2] by simp
  done

declare hash.simps [simp del]

text \<open>Modelled from the spec: \<open>common.BytesToHash\<close> is declared in a package that is not
  under src/, and the spec says of it only that \<open>Hash\<close> gives 32 bytes. It is the
  parameter \<open>toHash\<close> of \<open>Hash\<close>.\<close>

definition Hash ::
  "keccak \<Rightarrow> (byte list \<Rightarrow> byte list) \<Rightarrow> ReStackTrie \<Rightarrow> panic + (byte list \<times> ReStackTrie)" where
  "Hash K toHash st =
     (case hash K st of Inl e \<Rightarrow> Inl e | Inr (h, st') \<Rightarrow> Inr (toHash h, st'))"

section \<open>Insertion\<close>

text \<open>The loop of \<open>getDiffIndex\<close>; \<open>d\<close> is \<open>diffindex\<close>. Reading \<open>key[st.keyOffset+diffindex]\<close>
  past the end of \<open>key\<close> is a runtime panic.\<close>

function getDiffIndex_loop :: "byte list \<Rightarrow> nat \<Rightarrow> byte list \<Rightarrow> nat \<Rightarrow> panic + nat" where
  "getDiffIndex_loop stkey off key' d =
     (if d < length stkey then
        (if off + d < length key' then
           (if stkey ! d = key' ! (off + d) then getDiffIndex_loop stkey off key' (d + 1)
            else Inr d)
         else Inl IndexOutOfRange)
      else Inr d)"
  by pat_completeness auto
termination
  by (relation "measure (\<lambda>(stkey, off, key', d). length stkey - d)") auto

declare getDiffIndex_loop.simps [simp del]

definition getDiffIndex :: "ReStackTrie \<Rightarrow> byte list \<Rightarrow> panic + nat" where
  "getDiffIndex st key' = getDiffIndex_loop (key st) (keyOffset st) key' 0"

text \<open>What a node becomes when its hash is stored in it: \<open>val = hash()\<close>,
  \<open>key = nil\<close>, \<open>nodeType = hashedNode\<close>; \<open>c'\<close> is the node as \<open>hash\<close> left it.\<close>

definition stub :: "byte list \<Rightarrow> ReStackTrie \<Rightarrow> ReStackTrie" where
  "stub h c' = Node hashedNode h [] (keyOffset c') (children c')"

text \<open>The loop \<open>for i := idx - 1; i >= 0; i--\<close> of the branch case: \<open>collapseLeft K cs n\<close>
  scans the slots \<open>n - 1, ..., 0\<close>, and stops at the first one that is not nil.\<close>

fun collapseLeft ::
  "keccak \<Rightarrow> ReStackTrie option list \<Rightarrow> nat \<Rightarrow> panic + ReStackTrie option list" where
  "collapseLeft K cs 0 = Inr cs"
| "collapseLeft K cs (Suc i) =
     (case child cs i of
        None \<Rightarrow> collapseLeft K cs i
      | Some c \<Rightarrow>
          (if nodeType c \<noteq> hashedNode then
             (case hash K c of
                Inl e \<Rightarrow> Inl e
              | Inr (h, c') \<Rightarrow> Inr (cs[i := Some (stub h c')]))
           else Inr cs))"

text \<open>The second half of the \<open>extNode\<close> case of \<open>insert\<close>, from \<open>var n *ReStackTrie\<close> on:
  the extension with key \<open>k\<close> at depth \<open>off\<close> is split at \<open>diffidx < len(st.key)\<close>.
  \<open>n\<close> is the part below the split, stored hashed; \<open>newLeaf\<close> is the node \<open>o\<close>.\<close>

definition splitExt ::
  "keccak \<Rightarrow> byte list \<Rightarrow> byte list \<Rightarrow> nat \<Rightarrow> ReStackTrie option list \<Rightarrow>
   byte list \<Rightarrow> byte list \<Rightarrow> nat \<Rightarrow> panic + ReStackTrie" where
  "splitExt K v k off cs key' value diffidx =
     (case (if diffidx + 1 < length k
            then Some (Node extNode [] (drop (diffidx + 1) k) 0 (noChildren[0 := child cs 0]))
            else child cs 0) of
        None \<Rightarrow> Inl NilDereference
      | Some n0 \<Rightarrow>
          (case hash K (Node (nodeType n0) (val n0) (key n0) (off + diffidx + 1)
                          (children n0)) of
             Inl e \<Rightarrow> Inl e
           | Inr (h, n') \<Rightarrow>
               (let n = stub h n';
                    newLeaf = Node leafNode value (drop (off + diffidx + 1) key')
                                (off + diffidx + 1) noChildren;
                    origIdx = unat (k ! diffidx);
                    newIdx = unat (key' ! (diffidx + off))
                in if origIdx < 16 \<and> newIdx < 16 then
                     (if diffidx = 0 then
                        Inr (Node branchNode v (take diffidx k) off
                               (cs[0 := None, origIdx := Some n, newIdx := Some newLeaf]))
                      else
                        Inr (Node extNode v (take diffidx k) off
                               (cs[0 := Some (Node branchNode [] [] (off + diffidx)
                                  (noChildren[origIdx := Some n, newIdx := Some newLeaf]))])))
                   else Inl IndexOutOfRange)))"

text \<open>The second half of the \<open>leafNode\<close> case of \<open>insert\<close>, from \<open>var p *ReStackTrie\<close> on:
  the leaf with key \<open>k\<close> and value \<open>v\<close> at depth \<open>off\<close> is split at
  \<open>diffidx < len(st.key)\<close>. \<open>l\<close> is the leaf with the original value, stored hashed.\<close>

definition splitLeaf ::
  "keccak \<Rightarrow> byte list \<Rightarrow> byte list \<Rightarrow> nat \<Rightarrow> ReStackTrie option list \<Rightarrow>
   byte list \<Rightarrow> byte list \<Rightarrow> nat \<Rightarrow> panic + ReStackTrie" where
  "splitLeaf K v k off cs key' value diffidx =
     (let origIdx = unat (k ! diffidx) in
      if origIdx < 16 then
        (case hash K (Node leafNode v (drop (diffidx + 1) k) (off + diffidx + 1) noChildren) of
           Inl e \<Rightarrow> Inl e
         | Inr (h, l') \<Rightarrow>
             (let l = stub h l';
                  newIdx = unat (key' ! (diffidx + off));
                  newLeaf = Node leafNode value (drop (off + diffidx + 1) key')
                              (off + diffidx + 1) noChildren
              in if newIdx < 16 then
                   (if diffidx = 0 then
                      Inr (Node branchNode v (take diffidx k) off
                             (cs[0 := None, origIdx := Some l, newIdx := Some newLeaf]))
                    else
                      Inr (Node extNode v (take diffidx k) off
                             (cs[0 := Some (Node branchNode [] [] (off + diffidx)
                                (noChildren[origIdx := Some l, newIdx := Some newLeaf]))])))
                 else Inl IndexOutOfRange))
      else Inl IndexOutOfRange)"

definition insert_measure :: "ReStackTrie \<Rightarrow> nat" where
  "insert_measure st = (if nodeType st = emptyNode then 0 else Suc (size st))"

text \<open>\<open>insert\<close> (here \<open>insert_st\<close>): the node as the call leaves it, or the panic. A nibble
  used as an index into the 16 slots panics when it is 16 or more.\<close>

function insert_st :: "keccak \<Rightarrow> ReStackTrie \<Rightarrow> byte list \<Rightarrow> byte list \<Rightarrow> panic + ReStackTrie" where
  "insert_st K (Node branchNode v k off cs) key' value =
     (if off < length key' then
        (let idx = unat (key' ! off) in
         if idx < 16 then
           (let target = (case child cs idx of
                            None \<Rightarrow> Node emptyNode [] [] (off + 1) noChildren
                          | Some c \<Rightarrow> c)
            in case collapseLeft K (cs[idx := Some target]) idx of
                 Inl e \<Rightarrow> Inl e
               | Inr cs' \<Rightarrow>
                   (case insert_st K target key' value of
                      Inl e \<Rightarrow> Inl e
                    | Inr c' \<Rightarrow> Inr (Node branchNode v k off (cs'[idx := Some c']))))
         else Inl IndexOutOfRange)
      else Inl IndexOutOfRange)"
| "insert_st K (Node extNode v k off cs) key' value =
     (case getDiffIndex (Node extNode v k off cs) key' of
        Inl e \<Rightarrow> Inl e
      | Inr diffidx \<Rightarrow>
          (if diffidx = length k then
             (case child cs 0 of
                None \<Rightarrow> Inl NilDereference
              | Some c \<Rightarrow>
                  (case insert_st K c key' value of
                     Inl e \<Rightarrow> Inl e
                   | Inr c' \<Rightarrow> Inr (Node extNode v k off (cs[0 := Some c']))))
           else splitExt K v k off cs key' value diffidx))"
| "insert_st K (Node leafNode v k off cs) key' value =
     (case getDiffIndex (Node leafNode v k off cs) key' of
        Inl e \<Rightarrow> Inl e
      | Inr diffidx \<Rightarrow>
          (if diffidx \<ge> length k then Inl InsertIntoExistingKey
           else splitLeaf K v k off cs key' value diffidx))"
| "insert_st K (Node emptyNode v k off cs) key' value =
     (if off \<le> length key' then Inr (Node leafNode value (drop off key') off cs)
      else Inl IndexOutOfRange)"
| "insert_st K (Node hashedNode v k off cs) key' value = Inl InsertIntoHash"
  by pat_completeness auto
termination
  apply (relation "measure (\<lambda>(K, st, key', value). insert_measure st)")
    apply simp
  subgoal for K v k off cs key' va idx target
    using child_size [of cs "unat (key' ! off)"]
    by (auto simp: insert_measure_def split: option.splits)
  subgoal for K v k off cs key' va d c
    using child_size [of cs 0 c] by (simp add: insert_measure_def)
  done

text \<open>\<open>TryUpdate\<close>: the trie as the call leaves it and the \<open>error\<close> returned
  (\<open>None\<close> is nil), or the panic.\<close>

definition TryUpdate ::
  "keccak \<Rightarrow> ReStackTrie \<Rightarrow> byte list \<Rightarrow> byte list \<Rightarrow> panic + (ReStackTrie \<times> string option)" where
  "TryUpdate K st key' value =
     (let k = keybytesToHex key' in
      if length value = 0 then Inl DeletionNotSupported
      else (case insert_st K st (take (length k - 1) k) value of
              Inl e \<Rightarrow> Inl e
            | Inr st' \<Rightarrow> Inr (st', None)))"

section \<open>Sequences of updates and the shape of the resident tree\<close>

text \<open>The nibbles \<open>TryUpdate\<close> hands to \<open>insert\<close>: \<open>k[:len(k)-1]\<close>.\<close>

definition keyNibbles :: "byte list \<Rightarrow> byte list" where
  "keyNibbles key' = (let k = keybytesToHex key' in take (length k - 1) k)"

text \<open>Strict lexicographic order on nibble sequences.\<close>

fun nibLess :: "byte list \<Rightarrow> byte list \<Rightarrow> bool" where
  "nibLess [] [] = False"
| "nibLess [] (y # ys) = True"
| "nibLess (x # xs) [] = False"
| "nibLess (x # xs) (y # ys) = (x < y \<or> (x = y \<and> nibLess xs ys))"

text \<open>Keys given in ascending order: each one is greater than the one before it.\<close>

fun ascending :: "byte list list \<Rightarrow> bool" where
  "ascending [] = True"
| "ascending [a] = True"
| "ascending (a # b # ks) = (nibLess (keyNibbles a) (keyNibbles b) \<and> ascending (b # ks))"

text \<open>A run of \<open>TryUpdate\<close> calls on one trie; it stops at the first panic.\<close>

fun updates ::
  "keccak \<Rightarrow> ReStackTrie \<Rightarrow> (byte list \<times> byte list) list \<Rightarrow> panic + ReStackTrie" where
  "updates K st [] = Inr st"
| "updates K st ((key', value) # kvs) =
     (case TryUpdate K st key' value of
        Inl e \<Rightarrow> Inl e
      | Inr (st', err) \<Rightarrow> updates K st' kvs)"

text \<open>A slot that is nil or holds a node in the hashed state.\<close>

definition collapsed :: "ReStackTrie option \<Rightarrow> bool" where
  "collapsed s = (case s of None \<Rightarrow> True | Some c \<Rightarrow> nodeType c = hashedNode)"

text \<open>
  \<open>leftCollapsed k st\<close>: the tree under \<open>st\<close> is the descent path of the key with
  nibbles \<open>k\<close> and nothing else that is not hashed. In a branch at depth \<open>off\<close> the path goes
  on in slot \<open>k[off]\<close>; every slot to the left of it is nil or hashed, every slot to the
  right is nil. An extension carries the next nibbles of \<open>k\<close> and has its branch in slot
  0 alone. The path ends in a leaf with the rest of \<open>k\<close>. A hashed node is never looked
  into: no operation reads its children.
\<close>

function leftCollapsed :: "byte list \<Rightarrow> ReStackTrie \<Rightarrow> bool" where
  "leftCollapsed k (Node branchNode v sk off cs) =
     (length cs = 16 \<and> off < length k \<and> unat (k ! off) < 16 \<and>
      (case child cs (unat (k ! off)) of
         None \<Rightarrow> False
       | Some c \<Rightarrow>
           keyOffset c = off + 1 \<and> leftCollapsed k c \<and>
           list_all collapsed (take (unat (k ! off)) cs) \<and>
           list_all (\<lambda>s. s = None) (drop (unat (k ! off) + 1) cs)))"
| "leftCollapsed k (Node extNode v sk off cs) =
     (length cs = 16 \<and> sk \<noteq> [] \<and> take (length sk) (drop off k) = sk \<and>
      list_all (\<lambda>s. s = None) (drop 1 cs) \<and>
      (case child cs 0 of
         None \<Rightarrow> False
       | Some c \<Rightarrow>
           nodeType c = branchNode \<and> keyOffset c = off + length sk \<and> leftCollapsed k c))"
| "leftCollapsed k (Node leafNode v sk off cs) =
     (cs = noChildren \<and> off \<le> length k \<and> sk = drop off k)"
| "leftCollapsed k (Node emptyNode v sk off cs) = False"
| "leftCollapsed k (Node hashedNode v sk off cs) = False"
  by pat_completeness auto
termination
  apply (relation "measure (\<lambda>(k, st). size st)")
    apply simp
  subgoal for k v sk off cs c
    using child_size [of cs "unat (k ! off)" c] by simp
  subgoal for k v sk off cs c
    using child_size [of cs 0 c] by simp
  done

text \<open>A slot that holds a node that is not hashed.\<close>

definition live :: "ReStackTrie option \<Rightarrow> bool" where
  "live s = (case s of None \<Rightarrow> False | Some c \<Rightarrow> nodeType c \<noteq> hashedNode)"

text \<open>\<open>singlePath st\<close>: the nodes under \<open>st\<close> that are not hashed form one path: each of
  them has at most one child that is not hashed.\<close>

function singlePath :: "ReStackTrie \<Rightarrow> bool" where
  "singlePath (Node t v sk off cs) =
     (t = hashedNode \<or>
      (length (filter live cs) \<le> 1 \<and>
       list_all (\<lambda>s. case s of None \<Rightarrow> True | Some c \<Rightarrow> singlePath c) cs))"
  by pat_completeness auto
termination
  apply (relation "measure size")
   apply simp
  subgoal for t v sk off cs s c
    using slot_size [of c cs] by simp
  done

text \<open>The nodes under \<open>st\<close> that are not in the hashed state, counted through every
  pointer, also the children a hashed node still holds.\<close>

function unhashedNodes :: "ReStackTrie \<Rightarrow> nat" where
  "unhashedNodes (Node t v sk off cs) =
     (if t = hashedNode then 0 else 1)
     + sum_list (map (\<lambda>s. case s of None \<Rightarrow> 0 | Some c \<Rightarrow> unhashedNodes c) cs)"
  by pat_completeness auto
termination
  apply (relation "measure size")
   apply simp
  subgoal for t v sk off cs s c
    using slot_size [of c cs] by simp
  done

text \<open>\<open>residentSinglePath st\<close>: as \<open>singlePath\<close>, but over everything that is still
  pointed to: no node has two children under which a node that is not hashed remains.\<close>

function residentSinglePath :: "ReStackTrie \<Rightarrow> bool" where
  "residentSinglePath (Node t v sk off cs) =
     (length (filter (\<lambda>s. case s of None \<Rightarrow> False | Some c \<Rightarrow> 0 < unhashedNodes c) cs) \<le> 1 \<and>
      list_all (\<lambda>s. case s of None \<Rightarrow> True | Some c \<Rightarrow> residentSinglePath c) cs)"
  by pat_completeness auto
termination
  apply (relation "measure size")
   apply simp
  subgoal for t v sk off cs s c
    using slot_size [of c cs] by simp
  done

section \<open>Where an insertion ends\<close>



text \<open>The faults of the Go runtime, as opposed to the three \<open>panic\<close> calls of the code.\<close>

fun runtimeFault :: "panic \<Rightarrow> bool" where
  "runtimeFault IndexOutOfRange = True"
| "runtimeFault NilDereference = True"
| "runtimeFault DeletionNotSupported = False"
| "runtimeFault InsertIntoExistingKey = False"
| "runtimeFault InsertIntoHash = False"

definition faulted :: "panic + 'a \<Rightarrow> bool" where
  "faulted r = (case r of Inl e \<Rightarrow> runtimeFault e | Inr x \<Rightarrow> False)"

text \<open>A stand-in for the sponge, with 32 bytes of output, to run the model on concrete
  inputs.\<close>

definition zeroSponge :: keccak where
  "zeroSponge bs = replicate 32 0"

section \<open>Concrete runs used below\<close>

lemma insert_st_new:
  "insert_st K NewReStackTrie k v = Inr (Node leafNode v k 0 noChildren)"
  by (simp add: NewReStackTrie_def)

lemma TryUpdate_insert_st:
  "TryUpdate K st key' value =
     (if value = [] then Inl DeletionNotSupported
      else (case insert_st K st (keyNibbles key') value of
              Inl e \<Rightarrow> Inl e
            | Inr st' \<Rightarrow> Inr (st', None)))"
  by (simp add: TryUpdate_def keyNibbles_def Let_def)

lemma keyNibbles_0x12: "keyNibbles [0x12] = [1, 2]"
  by code_simp

section \<open>The error result of TryUpdate\<close>

text \<open>
  Claim C10. Every call of \<open>TryUpdate\<close> that returns, for every trie, key and value,
  returns the nil error: the only \<open>return\<close> of the function is \<open>return nil\<close>, and misuse
  is reported by a panic, never through the error value.
\<close>

theorem TryUpdate_returns_nil_error:
  "TryUpdate K st key' value = Inr r \<Longrightarrow> snd r = None"
  by (auto simp: TryUpdate_insert_st split: if_splits sum.splits)

theorem TryUpdate_returns_nil_error_witness:
  "TryUpdate zeroSponge NewReStackTrie [0x12] [0x61]
     = Inr (Node leafNode [0x61] [1, 2] 0 noChildren, None)
   \<and> snd (Node leafNode [0x61] [1, 2] 0 noChildren, None :: string option) = None"
proof -
  have h: "TryUpdate zeroSponge NewReStackTrie [0x12] [0x61]
     = Inr (Node leafNode [0x61] [1, 2] 0 noChildren, None)"
    by (simp add: TryUpdate_insert_st keyNibbles_0x12 insert_st_new)
  show ?thesis using h TryUpdate_returns_nil_error [OF h] by simp
qed

section \<open>The root of small tries\<close>

text \<open>
  Claim C7. A new trie that receives the one pair (empty key, \<open>76 65 72 62\<close>) should
  have as root the Keccak-256 of the RLP list of the hex-prefix byte \<open>20\<close> and the value,
  that is of the seven bytes \<open>c6 20 84 76 65 72 62\<close>. The code gives something else: the
  leaf has an empty key, \<open>rawHPRLP\<close> writes no hex-prefix byte for it, \<open>hash\<close> returns
  the six bytes \<open>c5 84 76 65 72 62\<close> as they are, and \<open>Hash\<close> hands them to
  \<open>BytesToHash\<close> without a call of the sponge (the result is the same for every \<open>K\<close>).
\<close>

theorem single_leaf_root_is_unhashed_encoding:
  "TryUpdate K NewReStackTrie [] [0x76, 0x65, 0x72, 0x62]
     = Inr (Node leafNode [0x76, 0x65, 0x72, 0x62] [] 0 noChildren, None)
   \<and> Hash K toHash (Node leafNode [0x76, 0x65, 0x72, 0x62] [] 0 noChildren)
     = Inr (toHash [0xc5, 0x84, 0x76, 0x65, 0x72, 0x62],
            Node leafNode [0x76, 0x65, 0x72, 0x62] [] 0 noChildren)"
proof
  show "TryUpdate K NewReStackTrie [] [0x76, 0x65, 0x72, 0x62]
     = Inr (Node leafNode [0x76, 0x65, 0x72, 0x62] [] 0 noChildren, None)"
    by code_simp
  have "hash K (Node leafNode [0x76, 0x65, 0x72, 0x62] [] 0 noChildren)
     = Inr ([0xc5, 0x84, 0x76, 0x65, 0x72, 0x62],
            Node leafNode [0x76, 0x65, 0x72, 0x62] [] 0 noChildren)"
    by code_simp
  then show "Hash K toHash (Node leafNode [0x76, 0x65, 0x72, 0x62] [] 0 noChildren)
     = Inr (toHash [0xc5, 0x84, 0x76, 0x65, 0x72, 0x62],
            Node leafNode [0x76, 0x65, 0x72, 0x62] [] 0 noChildren)"
    by (simp add: Hash_def)
qed

text \<open>
  Claim C2. \<open>hash\<close> and \<open>Hash\<close> should return the Keccak-256 of the encoding of the trie,
  also when that encoding is shorter than 32 bytes. The code does not: after
  \<open>TryUpdate(12, 61)\<close> the root is a leaf whose encoding has five bytes; \<open>hash\<close> returns
  these five bytes, not 32, and \<open>Hash\<close> passes them to \<open>BytesToHash\<close>. The sponge is never
  called.
\<close>

theorem hash_returns_short_encoding:
  "TryUpdate K NewReStackTrie [0x12] [0x61]
     = Inr (Node leafNode [0x61] [1, 2] 0 noChildren, None)
   \<and> hash K (Node leafNode [0x61] [1, 2] 0 noChildren)
     = Inr ([0xc4, 0x02, 0x20, 0x12, 0x61], Node leafNode [0x61] [1, 2] 0 noChildren)
   \<and> Hash K toHash (Node leafNode [0x61] [1, 2] 0 noChildren)
     = Inr (toHash [0xc4, 0x02, 0x20, 0x12, 0x61], Node leafNode [0x61] [1, 2] 0 noChildren)"
proof (intro conjI)
  show "TryUpdate K NewReStackTrie [0x12] [0x61]
     = Inr (Node leafNode [0x61] [1, 2] 0 noChildren, None)"
    by code_simp
  show h: "hash K (Node leafNode [0x61] [1, 2] 0 noChildren)
     = Inr ([0xc4, 0x02, 0x20, 0x12, 0x61], Node leafNode [0x61] [1, 2] 0 noChildren)"
    by code_simp
  show "Hash K toHash (Node leafNode [0x61] [1, 2] 0 noChildren)
     = Inr (toHash [0xc4, 0x02, 0x20, 0x12, 0x61], Node leafNode [0x61] [1, 2] 0 noChildren)"
    using h by (simp add: Hash_def)
qed

text \<open>
  Claim C1. For keys given in ascending order the digest of \<open>Hash\<close> should be the root
  of the reference Merkle-Patricia trie of the same pairs. For the three pairs
  (\<open>10\<close>, \<open>61\<close>), (\<open>20\<close>, \<open>62\<close>), (\<open>30\<close>, \<open>63\<close>) the reference root is the Keccak-256 of the
  branch \<open>d7 80 c2 30 61 c2 30 62 c2 30 63 80 ... 80\<close>, with the three leaves embedded as
  they are. The code returns \<open>BytesToHash\<close> of the 27 bytes below: each embedded leaf is
  wrapped in a string header \<open>83\<close>, and the encoding is not hashed.
\<close>

theorem three_leaves_root_is_raw_branch_encoding:
  "updates K NewReStackTrie [([0x10], [0x61]), ([0x20], [0x62]), ([0x30], [0x63])]
     = Inr (Node branchNode [0x61] [] 0
         (noChildren[1 := Some (Node hashedNode [0xc2, 0x30, 0x61] [] 1 noChildren),
                     2 := Some (Node hashedNode [0xc2, 0x30, 0x62] [] 1 noChildren),
                     3 := Some (Node leafNode [0x63] [0] 1 noChildren)]))
   \<and> Hash K toHash (Node branchNode [0x61] [] 0
         (noChildren[1 := Some (Node hashedNode [0xc2, 0x30, 0x61] [] 1 noChildren),
                     2 := Some (Node hashedNode [0xc2, 0x30, 0x62] [] 1 noChildren),
                     3 := Some (Node leafNode [0x63] [0] 1 noChildren)]))
     = Inr (toHash [0xda, 0x80, 0x83, 0xc2, 0x30, 0x61, 0x83, 0xc2, 0x30, 0x62,
                    0x83, 0xc2, 0x30, 0x63,
                    0x80, 0x80, 0x80, 0x80, 0x80, 0x80, 0x80, 0x80, 0x80, 0x80, 0x80, 0x80, 0x80],
            Node branchNode [0x61] [] 0 noChildren)"
proof
  show "updates K NewReStackTrie [([0x10], [0x61]), ([0x20], [0x62]), ([0x30], [0x63])]
     = Inr (Node branchNode [0x61] [] 0
         (noChildren[1 := Some (Node hashedNode [0xc2, 0x30, 0x61] [] 1 noChildren),
                     2 := Some (Node hashedNode [0xc2, 0x30, 0x62] [] 1 noChildren),
                     3 := Some (Node leafNode [0x63] [0] 1 noChildren)]))"
    by code_simp
  have "hash K (Node branchNode [0x61] [] 0
         (noChildren[1 := Some (Node hashedNode [0xc2, 0x30, 0x61] [] 1 noChildren),
                     2 := Some (Node hashedNode [0xc2, 0x30, 0x62] [] 1 noChildren),
                     3 := Some (Node leafNode [0x63] [0] 1 noChildren)]))
     = Inr ([0xda, 0x80, 0x83, 0xc2, 0x30, 0x61, 0x83, 0xc2, 0x30, 0x62,
             0x83, 0xc2, 0x30, 0x63,
             0x80, 0x80, 0x80, 0x80, 0x80, 0x80, 0x80, 0x80, 0x80, 0x80, 0x80, 0x80, 0x80],
            Node branchNode [0x61] [] 0 noChildren)"
    by code_simp
  then show "Hash K toHash (Node branchNode [0x61] [] 0
         (noChildren[1 := Some (Node hashedNode [0xc2, 0x30, 0x61] [] 1 noChildren),
                     2 := Some (Node hashedNode [0xc2, 0x30, 0x62] [] 1 noChildren),
                     3 := Some (Node leafNode [0x63] [0] 1 noChildren)]))
     = Inr (toHash [0xda, 0x80, 0x83, 0xc2, 0x30, 0x61, 0x83, 0xc2, 0x30, 0x62,
                    0x83, 0xc2, 0x30, 0x63,
                    0x80, 0x80, 0x80, 0x80, 0x80, 0x80, 0x80, 0x80, 0x80, 0x80, 0x80, 0x80, 0x80],
            Node branchNode [0x61] [] 0 noChildren)"
    by (simp add: Hash_def)
qed

section \<open>The encoders at the edges\<close>

text \<open>
  Claim C3. A child whose encoding is shorter than 32 bytes should stand in its parent's
  encoding as it is, with no string header in front. The branch case of \<open>hash\<close> does
  otherwise: after the pairs (\<open>10\<close>, \<open>61\<close>) and (\<open>20\<close>, \<open>62\<close>) the two leaves encode to
  \<open>c2 30 61\<close> and \<open>c2 30 62\<close>, and the branch writes each of them behind the header
  \<open>83\<close> of a 3-byte string. (The small path of the extension case copies its child
  with no header.)
\<close>

theorem branch_wraps_embedded_child:
  "updates K NewReStackTrie [([0x10], [0x61]), ([0x20], [0x62])]
     = Inr (Node branchNode [0x61] [] 0
         (noChildren[1 := Some (Node hashedNode [0xc2, 0x30, 0x61] [] 1 noChildren),
                     2 := Some (Node leafNode [0x62] [0] 1 noChildren)]))
   \<and> hash K (Node branchNode [0x61] [] 0
         (noChildren[1 := Some (Node hashedNode [0xc2, 0x30, 0x61] [] 1 noChildren),
                     2 := Some (Node leafNode [0x62] [0] 1 noChildren)]))
     = Inr ([0xd7, 0x80, 0x83, 0xc2, 0x30, 0x61, 0x83, 0xc2, 0x30, 0x62,
             0x80, 0x80, 0x80, 0x80, 0x80, 0x80, 0x80, 0x80, 0x80, 0x80, 0x80, 0x80, 0x80, 0x80],
            Node branchNode [0x61] [] 0 noChildren)"
  by code_simp

text \<open>
  Claim C4. A string or a list payload of up to 55 bytes should get the one-byte header,
  and one of 56 bytes or more the long form. \<open>writeHPRLP\<close> draws the line one byte late
  (\<open>> 56\<close> where the branch case of \<open>hash\<close> has \<open>< 56\<close>): a value of 56 bytes gets the
  single header byte \<open>b8\<close> (the long form is \<open>b8 38\<close>), and a list payload of 56 bytes,
  here the flag byte, the header \<open>b6\<close> and a value of 54 bytes, gets the single header byte
  \<open>f8\<close> (the long form is \<open>f8 38\<close>). The first of the two is what \<open>hash\<close> feeds the
  sponge for a leaf with a value of 56 bytes.
\<close>

theorem writeHPRLP_short_header_at_56:
  "writeHPRLP [] (replicate 56 7) True = Inr ([0xf8, 58, 0x20, 0xb8] @ replicate 56 7)
   \<and> writeHPRLP [] (replicate 54 7) True = Inr ([0xf8, 0x20, 0xb6] @ replicate 54 7)
   \<and> hash K (Node leafNode (replicate 56 7) [] 0 noChildren)
     = Inr (K ([0xf8, 58, 0x20, 0xb8] @ replicate 56 7),
            Node leafNode (replicate 56 7) [] 0 noChildren)"
proof (intro conjI)
  show w: "writeHPRLP [] (replicate 56 7) True = Inr ([0xf8, 58, 0x20, 0xb8] @ replicate 56 7)"
    by code_simp
  show "writeHPRLP [] (replicate 54 7) True = Inr ([0xf8, 0x20, 0xb6] @ replicate 54 7)"
    by code_simp
  show "hash K (Node leafNode (replicate 56 7) [] 0 noChildren)
     = Inr (K ([0xf8, 58, 0x20, 0xb8] @ replicate 56 7),
            Node leafNode (replicate 56 7) [] 0 noChildren)"
    using w by (simp add: hash.simps)
qed

text \<open>
  Claim C8. Where both encoders apply, \<open>rawHPRLP\<close> and \<open>writeHPRLP\<close> should give the same
  bytes. They do not: for the key nibbles 0, 1, the value \<open>02 03\<close> and a leaf,
  \<open>rawHPRLP\<close> writes the length of the key string as \<open>02\<close>, \<open>writeHPRLP\<close> as the
  string header \<open>82\<close>; and for a one-byte value of 128 or more \<open>rawHPRLP\<close> writes the
  header \<open>01\<close> where \<open>writeHPRLP\<close> writes \<open>81\<close>.
\<close>

theorem rawHPRLP_differs_from_writeHPRLP:
  "rawHPRLP [0, 1] [2, 3] True = Inr [0xc6, 0x02, 0x20, 0x01, 0x82, 0x02, 0x03]
   \<and> writeHPRLP [0, 1] [2, 3] True = Inr [0xc6, 0x82, 0x20, 0x01, 0x82, 0x02, 0x03]
   \<and> rawHPRLP [1] [200] True = Inr [0xc3, 0x31, 0x01, 200]
   \<and> writeHPRLP [1] [200] True = Inr [0xc3, 0x31, 0x81, 200]"
  by code_simp

text \<open>
  Claim C9. The hex-prefix bytes written for a leaf or an extension should decode back to
  the nibbles and the flag. The small path of the extension case of \<open>hash\<close> stores each
  nibble with \<open>=\<close>, so the second nibble of a byte overwrites the first: after the pairs
  (\<open>12 30\<close>, \<open>61\<close>) and (\<open>12 40\<close>, \<open>62\<close>) the root is an extension with the nibbles 1, 2,
  and its encoding carries the hex-prefix bytes \<open>00 02\<close>, which decode to the nibbles
  0, 2 (\<open>writeHPRLP\<close> writes \<open>00 12\<close> for the same key). And \<open>rawHPRLP\<close> writes no
  hex-prefix byte at all for a leaf with an empty key, where \<open>writeHPRLP\<close> writes \<open>20\<close>.
\<close>

theorem extension_hex_prefix_loses_nibble:
  "updates K NewReStackTrie [([0x12, 0x30], [0x61]), ([0x12, 0x40], [0x62])]
     = Inr (Node extNode [0x61] [1, 2] 0
         (noChildren[0 := Some (Node branchNode [] [] 2
            (noChildren[3 := Some (Node hashedNode [0xc2, 0x30, 0x61] [] 3 noChildren),
                        4 := Some (Node leafNode [0x62] [0] 3 noChildren)]))]))
   \<and> hash K (Node extNode [0x61] [1, 2] 0
         (noChildren[0 := Some (Node branchNode [] [] 2
            (noChildren[3 := Some (Node hashedNode [0xc2, 0x30, 0x61] [] 3 noChildren),
                        4 := Some (Node leafNode [0x62] [0] 3 noChildren)]))]))
     = Inr ([0xdb, 0x82, 0x00, 0x02,
             0xd7, 0x80, 0x80, 0x80, 0x83, 0xc2, 0x30, 0x61, 0x83, 0xc2, 0x30, 0x62,
             0x80, 0x80, 0x80, 0x80, 0x80, 0x80, 0x80, 0x80, 0x80, 0x80, 0x80, 0x80],
            Node extNode [0x61] [1, 2] 0
              (noChildren[0 := Some (Node branchNode [] [] 2 noChildren)]))
   \<and> writeHPRLP [1, 2] [0xd1] False = Inr [0xc5, 0x82, 0x00, 0x12, 0x81, 0xd1]
   \<and> rawHPRLP [] [0x61, 0x62] True = Inr [0xc3, 0x82, 0x61, 0x62]
   \<and> writeHPRLP [] [0x61, 0x62] True = Inr [0xc4, 0x20, 0x82, 0x61, 0x62]"
  by code_simp

section \<open>The panics of TryUpdate\<close>












lemma faulted_simps [simp]:
  "faulted (Inr x) = False" "faulted (Inl e) = runtimeFault e"
  by (simp_all add: faulted_def)










section \<open>The left-collapsed shape after ascending updates\<close>

lemma getDiffIndex_loop_Inr:
  "getDiffIndex_loop sk off k' d = Inr r \<Longrightarrow> d \<le> length sk \<Longrightarrow>
   take d sk = take d (drop off k') \<Longrightarrow>
   r \<le> length sk \<and> take r sk = take r (drop off k') \<and>
   (r < length sk \<longrightarrow> off + r < length k' \<and> sk ! r \<noteq> k' ! (off + r))"
proof (induction sk off k' d rule: getDiffIndex_loop.induct)
  case (1 stkey off key' d)
  show ?case
  proof (cases "d < length stkey")
    case False
    with "1.prems" show ?thesis
      by (subst (asm) getDiffIndex_loop.simps) auto
  next
    case d: True
    show ?thesis
    proof (cases "off + d < length key'")
      case False
      with d "1.prems" show ?thesis
        by (subst (asm) getDiffIndex_loop.simps) auto
    next
      case o: True
      show ?thesis
      proof (cases "stkey ! d = key' ! (off + d)")
        case False
        with d o "1.prems" show ?thesis
          by (subst (asm) getDiffIndex_loop.simps) auto
      next
        case e: True
        from d o e "1.prems"(1) have r: "getDiffIndex_loop stkey off key' (d + 1) = Inr r"
          by (subst (asm) getDiffIndex_loop.simps) simp
        have "take (Suc d) stkey = take d stkey @ [stkey ! d]"
          using d by (simp add: take_Suc_conv_app_nth)
        moreover have "take (Suc d) (drop off key') = take d (drop off key') @ [key' ! (off + d)]"
          using o by (simp add: take_Suc_conv_app_nth)
        ultimately have "take (d + 1) stkey = take (d + 1) (drop off key')"
          using e "1.prems"(3) by simp
        with "1.IH" [OF d o e r] d show ?thesis by simp
      qed
    qed
  qed
qed

lemma getDiffIndex_Inr:
  "getDiffIndex (Node t v sk off cs) k' = Inr r \<Longrightarrow>
   r \<le> length sk \<and> take r sk = take r (drop off k') \<and>
   (r < length sk \<longrightarrow> off + r < length k' \<and> sk ! r \<noteq> k' ! (off + r))"
  using getDiffIndex_loop_Inr [of sk off k' 0 r] by (simp add: getDiffIndex_def)

lemma nibLess_drop:
  "nibLess a b \<Longrightarrow> take d a = take d b \<Longrightarrow> d \<le> length a \<Longrightarrow> nibLess (drop d a) (drop d b)"
proof (induction d arbitrary: a b)
  case 0
  then show ?case by simp
next
  case (Suc d)
  then obtain x xs where a: "a = x # xs" by (cases a) auto
  with Suc.prems obtain y ys where b: "b = y # ys" by (cases b) auto
  from Suc.prems a b have "x = y" "take d xs = take d ys" "d \<le> length xs" by auto
  with Suc.prems a b have "nibLess xs ys" by auto
  with Suc.IH [of xs ys] \<open>take d xs = take d ys\<close> \<open>d \<le> length xs\<close> a b show ?case by simp
qed

lemma nibLess_nth:
  assumes "nibLess a b" "take d a = take d b" "d < length a"
  shows "d < length b \<and> a ! d \<le> b ! d"
proof -
  from assms have n: "nibLess (drop d a) (drop d b)" by (simp add: nibLess_drop)
  have da: "drop d a = a ! d # drop (Suc d) a" using assms(3) by (simp add: Cons_nth_drop_Suc)
  with n have "drop d b \<noteq> []" by (cases "drop d b") auto
  then have l: "d < length b" by simp
  then have db: "drop d b = b ! d # drop (Suc d) b" by (simp add: Cons_nth_drop_Suc)
  from n da db have "a ! d \<le> b ! d" by auto
  with l show ?thesis by simp
qed

lemma take_add_eq:
  "take a xs = take a ys \<Longrightarrow> take b (drop a xs) = take b (drop a ys) \<Longrightarrow>
   take (a + b) xs = take (a + b) ys"
  by (simp add: take_add)


lemma collapsed_simps [simp]:
  "collapsed None" "collapsed (Some c) = (nodeType c = hashedNode)"
  by (simp_all add: collapsed_def)

lemma collapseLeft_noop:
  "\<forall>i<n. collapsed (child cs i) \<Longrightarrow> collapseLeft K cs n = Inr cs"
proof (induction n)
  case 0
  then show ?case by simp
next
  case (Suc n)
  then show ?case by (cases "child cs n") auto
qed

lemma collapseLeft_hit:
  "j < n \<Longrightarrow> child cs j = Some c \<Longrightarrow> nodeType c \<noteq> hashedNode \<Longrightarrow>
   \<forall>i. j < i \<and> i < n \<longrightarrow> child cs i = None \<Longrightarrow>
   collapseLeft K cs n =
     (case hash K c of Inl e \<Rightarrow> Inl e | Inr (h, c') \<Rightarrow> Inr (cs[j := Some (stub h c')]))"
proof (induction n)
  case 0
  then show ?case by simp
next
  case (Suc n)
  show ?case
  proof (cases "j = n")
    case True
    with Suc.prems show ?thesis by (cases "hash K c") auto
  next
    case False
    with Suc.prems have "j < n" "child cs n = None" by auto
    with Suc show ?thesis by simp
  qed
qed

lemma list_all_take_nth:
  "n \<le> length xs \<Longrightarrow> list_all P (take n xs) = (\<forall>i<n. P (xs ! i))"
  by (auto simp: list_all_length)

lemma list_all_drop_nth:
  "list_all P (drop n xs) = (\<forall>i. n \<le> i \<and> i < length xs \<longrightarrow> P (xs ! i))"
proof
  assume a: "list_all P (drop n xs)"
  show "\<forall>i. n \<le> i \<and> i < length xs \<longrightarrow> P (xs ! i)"
  proof (intro allI impI)
    fix i assume i: "n \<le> i \<and> i < length xs"
    then have "i - n < length (drop n xs)" by auto
    with a have "P (drop n xs ! (i - n))" by (simp add: list_all_length)
    with i show "P (xs ! i)" by simp
  qed
next
  assume a: "\<forall>i. n \<le> i \<and> i < length xs \<longrightarrow> P (xs ! i)"
  show "list_all P (drop n xs)"
    unfolding list_all_length
  proof (intro allI impI)
    fix i assume "i < length (drop n xs)"
    then have "n \<le> n + i \<and> n + i < length xs" by auto
    with a have "P (xs ! (n + i))" by blast
    then show "P (drop n xs ! i)" using \<open>i < length (drop n xs)\<close> by simp
  qed
qed

lemma leftCollapsed_branch:
  "leftCollapsed k (Node branchNode v sk off cs) =
     (length cs = 16 \<and> off < length k \<and> unat (k ! off) < 16 \<and>
      (\<exists>c. cs ! unat (k ! off) = Some c \<and> keyOffset c = off + 1 \<and> leftCollapsed k c) \<and>
      (\<forall>i<unat (k ! off). collapsed (cs ! i)) \<and>
      (\<forall>i. unat (k ! off) < i \<and> i < 16 \<longrightarrow> cs ! i = None))"
proof (cases "length cs = 16 \<and> unat (k ! off) < 16")
  case False
  then show ?thesis by auto
next
  case True
  then have t: "list_all collapsed (take (unat (k ! off)) cs)
      = (\<forall>i<unat (k ! off). collapsed (cs ! i))"
    by (simp add: list_all_take_nth)
  have d: "list_all (\<lambda>s. s = None) (drop (Suc (unat (k ! off))) cs)
      = (\<forall>i. unat (k ! off) < i \<and> i < 16 \<longrightarrow> cs ! i = None)"
    using True by (auto simp: list_all_drop_nth Suc_le_eq)
  show ?thesis
    using True by (auto simp: child_def t d split: option.splits)
qed

lemma leftCollapsed_ext:
  "leftCollapsed k (Node extNode v sk off cs) =
     (length cs = 16 \<and> sk \<noteq> [] \<and> take (length sk) (drop off k) = sk \<and>
      (\<forall>i. 0 < i \<and> i < 16 \<longrightarrow> cs ! i = None) \<and>
      (\<exists>c. cs ! 0 = Some c \<and> nodeType c = branchNode \<and> keyOffset c = off + length sk \<and>
           leftCollapsed k c))"
proof (cases "length cs = 16")
  case False
  then show ?thesis by auto
next
  case True
  then have d: "list_all (\<lambda>s. s = None) (drop (Suc 0) cs) = (\<forall>i. 0 < i \<and> i < 16 \<longrightarrow> cs ! i = None)"
    by (auto simp: list_all_drop_nth Suc_le_eq)
  show ?thesis
    using True by (auto simp: child_def d split: option.splits)
qed

lemma noChildren_nth [simp]: "i < 16 \<Longrightarrow> noChildren ! i = None"
  by (simp add: noChildren_def)

lemma noChildren_length [simp]: "length noChildren = 16"
  by (simp add: noChildren_def)

lemma new_branch_inv:
  assumes "length cs = 16" "\<forall>i<16. cs ! i = None" "o1 < n1" "n1 < 16" "d < length k'"
    "unat (k' ! d) = n1" "nodeType l = hashedNode"
  shows "leftCollapsed k' (Node branchNode v sk d
           (cs[o1 := Some l, n1 := Some (Node leafNode va (drop (d + 1) k') (d + 1) noChildren)]))"
  unfolding leftCollapsed_branch using assms
  by (auto simp: nth_list_update)


lemma stub_hashed [simp]: "nodeType (stub h c) = hashedNode"
  by (simp add: stub_def)

lemma new_ext_inv:
  assumes "length cs = 16" "\<forall>i. 0 < i \<and> i < 16 \<longrightarrow> cs ! i = None" "0 < d" "d < length sk"
    "take d sk = take d (drop off k')" "leftCollapsed k' (Node branchNode bv bk (off + d) bcs)"
  shows "leftCollapsed k' (Node extNode v (take d sk) off
           (cs[0 := Some (Node branchNode bv bk (off + d) bcs)]))"
proof -
  have l: "length (take d sk) = d" using assms(4) by simp
  have "take d sk \<noteq> []" using assms(3,4) by (cases sk) auto
  then show ?thesis
    unfolding leftCollapsed_ext l using assms by (auto simp: nth_list_update)
qed

lemma splitLeaf_inv:
  assumes r: "splitLeaf K v sk off noChildren k' va d = Inr st'"
    and d: "d < length sk" and o: "off + d < length k'"
    and t: "take d sk = take d (drop off k')"
    and lt: "sk ! d < k' ! (off + d)"
  shows "leftCollapsed k' st' \<and> keyOffset st' = off \<and> nodeType st' \<noteq> hashedNode"
proof -
  let ?o = "unat (sk ! d)" and ?n = "unat (k' ! (off + d))"
  have on: "?o < ?n" using lt by (simp add: word_less_nat_alt)
  from r have o16: "?o < 16"
    unfolding splitLeaf_def Let_def by (simp split: if_split_asm)
  from r o16 obtain h l' where
    h: "hash K (Node leafNode v (drop (d + 1) sk) (off + d + 1) noChildren) = Inr (h, l')"
    unfolding splitLeaf_def Let_def
    by (cases "hash K (Node leafNode v (drop (d + 1) sk) (off + d + 1) noChildren)") auto
  from r o16 h have n16: "?n < 16"
    unfolding splitLeaf_def Let_def by (simp add: add.commute split: if_split_asm)
  let ?leaf = "Node leafNode va (drop (off + d + 1) k') (off + d + 1) noChildren"
  have b: "leftCollapsed k' (Node branchNode bv bk (off + d)
      (cs[?o := Some (stub h l'), ?n := Some ?leaf]))"
    if "length cs = 16" "\<forall>i<16. cs ! i = None" for bv bk cs
    using new_branch_inv [of cs ?o ?n "off + d" k' "stub h l'" bv bk va] that on n16 o
    by simp
  show ?thesis
  proof (cases "d = 0")
    case True
    with r o16 h n16 have "st' = Node branchNode v (take d sk) off
        (noChildren[0 := None, ?o := Some (stub h l'), ?n := Some ?leaf])"
      unfolding splitLeaf_def Let_def by (simp add: add.commute)
    moreover have "leftCollapsed k' (Node branchNode v (take d sk) (off + d)
        ((noChildren[0 := None])[?o := Some (stub h l'), ?n := Some ?leaf]))"
      by (rule b) (auto simp: nth_list_update)
    ultimately show ?thesis using True by simp
  next
    case False
    with r o16 h n16 have s: "st' = Node extNode v (take d sk) off
        (noChildren[0 := Some (Node branchNode [] [] (off + d)
           (noChildren[?o := Some (stub h l'), ?n := Some ?leaf]))])"
      unfolding splitLeaf_def Let_def by (simp add: add.commute)
    have bb: "leftCollapsed k' (Node branchNode [] [] (off + d)
           (noChildren[?o := Some (stub h l'), ?n := Some ?leaf]))"
      by (rule b) auto
    have "leftCollapsed k' (Node extNode v (take d sk) off
        (noChildren[0 := Some (Node branchNode [] [] (off + d)
           (noChildren[?o := Some (stub h l'), ?n := Some ?leaf]))]))"
      by (rule new_ext_inv) (use False d t bb in auto)
    then show ?thesis unfolding s by simp
  qed
qed

lemma splitExt_inv:
  assumes r: "splitExt K v sk off cs k' va d = Inr st'"
    and c: "length cs = 16" "\<forall>i. 0 < i \<and> i < 16 \<longrightarrow> cs ! i = None"
    and d: "d < length sk" and o: "off + d < length k'"
    and t: "take d sk = take d (drop off k')"
    and lt: "sk ! d < k' ! (off + d)"
  shows "leftCollapsed k' st' \<and> keyOffset st' = off \<and> nodeType st' \<noteq> hashedNode"
proof -
  let ?o = "unat (sk ! d)" and ?n = "unat (k' ! (off + d))"
  let ?start = "if d + 1 < length sk
            then Some (Node extNode [] (drop (d + 1) sk) 0 (noChildren[0 := child cs 0]))
            else child cs 0"
  have on: "?o < ?n" using lt by (simp add: word_less_nat_alt)
  from r obtain n0 where n0: "?start = Some n0"
    unfolding splitExt_def Let_def by (cases ?start) auto
  let ?hn = "hash K (Node (nodeType n0) (val n0) (key n0) (off + d + 1) (children n0))"
  from r n0 obtain h n' where h: "?hn = Inr (h, n')"
    unfolding splitExt_def Let_def by (cases ?hn) auto
  from r n0 h have i16: "?o < 16 \<and> ?n < 16"
    unfolding splitExt_def Let_def by (simp add: add.commute split: if_split_asm)
  let ?leaf = "Node leafNode va (drop (off + d + 1) k') (off + d + 1) noChildren"
  have b: "leftCollapsed k' (Node branchNode bv bk (off + d)
      (bcs[?o := Some (stub h n'), ?n := Some ?leaf]))"
    if "length bcs = 16" "\<forall>i<16. bcs ! i = None" for bv bk bcs
    using new_branch_inv [of bcs ?o ?n "off + d" k' "stub h n'" bv bk va] that on i16 o
    by simp
  show ?thesis
  proof (cases "d = 0")
    case True
    with r n0 h i16 have "st' = Node branchNode v (take d sk) off
        (cs[0 := None, ?o := Some (stub h n'), ?n := Some ?leaf])"
      unfolding splitExt_def Let_def by (simp add: add.commute)
    moreover have "leftCollapsed k' (Node branchNode v (take d sk) (off + d)
        ((cs[0 := None])[?o := Some (stub h n'), ?n := Some ?leaf]))"
      by (rule b) (use c in \<open>auto simp: nth_list_update\<close>)
    ultimately show ?thesis using True by simp
  next
    case False
    with r n0 h i16 have s: "st' = Node extNode v (take d sk) off
        (cs[0 := Some (Node branchNode [] [] (off + d)
           (noChildren[?o := Some (stub h n'), ?n := Some ?leaf]))])"
      unfolding splitExt_def Let_def by (simp add: add.commute)
    have bb: "leftCollapsed k' (Node branchNode [] [] (off + d)
           (noChildren[?o := Some (stub h n'), ?n := Some ?leaf]))"
      by (rule b) auto
    have "leftCollapsed k' (Node extNode v (take d sk) off
        (cs[0 := Some (Node branchNode [] [] (off + d)
           (noChildren[?o := Some (stub h n'), ?n := Some ?leaf]))]))"
      by (rule new_ext_inv) (use False d t bb c in auto)
    then show ?thesis unfolding s by simp
  qed
qed


lemma leftCollapsed_live:
  "leftCollapsed k st \<Longrightarrow> nodeType st \<noteq> hashedNode \<and> nodeType st \<noteq> emptyNode"
  by (cases st; cases "nodeType st") auto

lemma diverge_less:
  assumes n: "nibLess k k'" and p: "take off k' = take off k"
    and sk: "take (length sk) (drop off k) = sk" and d: "d < length sk"
    and t: "take d sk = take d (drop off k')" and ne: "sk ! d \<noteq> k' ! (off + d)"
  shows "sk ! d < k' ! (off + d)"
proof -
  have l: "length sk \<le> length k - off"
    using sk by (metis length_drop length_take min.cobounded1)
  with d have od: "off + d < length k" by simp
  have "take d sk = take d (drop off k)"
    using d by (subst sk [symmetric]) (simp add: min.absorb1)
  with t have "take d (drop off k) = take d (drop off k')" by simp
  with p have "take (off + d) k = take (off + d) k'" by (simp add: take_add)
  with n od have "k ! (off + d) \<le> k' ! (off + d)" by (simp add: nibLess_nth)
  moreover have "sk ! d = k ! (off + d)"
    using d od by (subst sk [symmetric]) simp
  ultimately show ?thesis using ne by simp
qed

lemma insert_st_inv:
  "insert_st K st k' va = Inr st' \<Longrightarrow> leftCollapsed k st \<Longrightarrow>
   take (keyOffset st) k' = take (keyOffset st) k \<Longrightarrow> nibLess k k' \<Longrightarrow>
   leftCollapsed k' st' \<and> keyOffset st' = keyOffset st \<and>
   (nodeType st = branchNode \<longrightarrow> nodeType st' = branchNode)"
proof (induction K st k' va arbitrary: st' rule: insert_st.induct)
  case (1 K v sk off cs k' va)
  let ?old = "unat (k ! off)" and ?new = "unat (k' ! off)"
  from "1.prems"(2) obtain c where
    l: "length cs = 16" and ok: "off < length k" and i0: "?old < 16"
    and c: "cs ! ?old = Some c" "keyOffset c = off + 1" "leftCollapsed k c"
    and left: "\<forall>i<?old. collapsed (cs ! i)"
    and right: "\<forall>i. ?old < i \<and> i < 16 \<longrightarrow> cs ! i = None"
    unfolding leftCollapsed_branch by auto
  from "1.prems"(3,4) ok have ok': "off < length k'" and le: "k ! off \<le> k' ! off"
    using nibLess_nth [of k k' off] by simp_all
  from "1.prems"(1) ok' have i16: "?new < 16"
    by (simp add: Let_def split: if_split_asm)
  let ?target = "case child cs ?new of
      None \<Rightarrow> Node emptyNode [] [] (off + 1) noChildren | Some c \<Rightarrow> c"
  from "1.prems"(1) ok' i16 obtain cs' where
    cl: "collapseLeft K (cs[?new := Some ?target]) ?new = Inr cs'"
    by (cases "collapseLeft K (cs[?new := Some ?target]) ?new") (simp_all add: Let_def)
  from "1.prems"(1) ok' i16 cl obtain c' where
    ins: "insert_st K ?target k' va = Inr c'"
    and st': "st' = Node branchNode v sk off (cs'[?new := Some c'])"
    by (cases "insert_st K ?target k' va") (auto simp: Let_def)
  show ?case
  proof (cases "k' ! off = k ! off")
    case True
    then have ii: "?new = ?old" by simp
    have tg: "?target = c" using c(1) l i0 ii by (simp add: child_def)
    have "cs[?new := Some ?target] = cs" using tg c(1) ii by (metis list_update_id)
    moreover have "\<forall>i<?new. collapsed (child cs i)"
      using left l i0 ii by (simp add: child_def)
    ultimately have cs': "cs' = cs" using cl by (simp add: collapseLeft_noop)
    have "take (Suc off) k' = take (Suc off) k"
      using "1.prems"(3) True ok ok' by (simp add: take_Suc_conv_app_nth)
    with "1.IH" [OF ok' refl i16 refl cl, of c'] ins tg c "1.prems"(4)
    have "leftCollapsed k' c' \<and> keyOffset c' = off + 1" by simp
    then show ?thesis
      unfolding st' cs' leftCollapsed_branch
      using l ok' i16 ii left right by (auto simp: nth_list_update)
  next
    case False
    with le have "k ! off < k' ! off" by simp
    then have ii: "?old < ?new" by (simp add: word_less_nat_alt)
    then have "cs ! ?new = None" using right i16 by simp
    then have tg: "?target = Node emptyNode [] [] (off + 1) noChildren"
      using l i16 by (simp add: child_def)
    let ?cs1 = "cs[?new := Some ?target]"
    have "child ?cs1 ?old = Some c" using c(1) l i0 ii by (simp add: child_def)
    moreover have "nodeType c \<noteq> hashedNode" using c(3) by (simp add: leftCollapsed_live)
    moreover have "\<forall>j. ?old < j \<and> j < ?new \<longrightarrow> child ?cs1 j = None"
      using right l i16 by (simp add: child_def)
    ultimately have "collapseLeft K ?cs1 ?new =
        (case hash K c of Inl e \<Rightarrow> Inl e
         | Inr (h, c'') \<Rightarrow> Inr (?cs1[?old := Some (stub h c'')]))"
      using ii by (rule collapseLeft_hit [rotated 1])
    with cl obtain h c'' where cs': "cs' = ?cs1[?old := Some (stub h c'')]"
      by (cases "hash K c") auto
    from ins tg ok' have c': "c' = Node leafNode va (drop (off + 1) k') (off + 1) noChildren"
      by simp
    have mid: "collapsed (cs ! i)" if "i < ?new" "i \<noteq> ?old" for i
    proof (cases "i < ?old")
      case True
      with left show ?thesis by simp
    next
      case False
      with that i16 have "?old < i \<and> i < 16" by simp
      with right show ?thesis by simp
    qed
    show ?thesis
      unfolding st' cs' c' leftCollapsed_branch
      using l ok' i16 ii right mid by (auto simp: nth_list_update)
  qed
next
  case (2 K v sk off cs k' va)
  from "2.prems"(2) obtain c where
    l: "length cs = 16" and ne: "sk \<noteq> []" and sk: "take (length sk) (drop off k) = sk"
    and rest: "\<forall>i. 0 < i \<and> i < 16 \<longrightarrow> cs ! i = None"
    and c: "cs ! 0 = Some c" "nodeType c = branchNode" "keyOffset c = off + length sk"
      "leftCollapsed k c"
    unfolding leftCollapsed_ext by auto
  from "2.prems"(1) obtain d where
    gd: "getDiffIndex (Node extNode v sk off cs) k' = Inr d"
    by (cases "getDiffIndex (Node extNode v sk off cs) k'") auto
  from getDiffIndex_Inr [OF gd] have
    dl: "d \<le> length sk" and t: "take d sk = take d (drop off k')"
    and dv: "d < length sk \<longrightarrow> off + d < length k' \<and> sk ! d \<noteq> k' ! (off + d)"
    by simp_all
  show ?case
  proof (cases "d = length sk")
    case True
    have ch: "child cs 0 = Some c" using c(1) l by (simp add: child_def)
    from "2.prems"(1) gd True ch obtain c' where
      ins: "insert_st K c k' va = Inr c'"
      and st': "st' = Node extNode v sk off (cs[0 := Some c'])"
      by (cases "insert_st K c k' va") auto
    from t True sk have e: "take (length sk) (drop off k') = take (length sk) (drop off k)"
      by simp
    with "2.prems"(3) have "take (off + length sk) k' = take (off + length sk) k"
      by (simp add: take_add)
    with "2.IH" [OF gd True ch ins c(4)] c "2.prems"(4)
    have "leftCollapsed k' c' \<and> keyOffset c' = off + length sk \<and> nodeType c' = branchNode"
      by simp
    then show ?thesis
      unfolding st' leftCollapsed_ext
      using l ne rest e sk by (auto simp: nth_list_update)
  next
    case False
    with dl have d: "d < length sk" by simp
    with dv have o: "off + d < length k'" and nq: "sk ! d \<noteq> k' ! (off + d)" by simp_all
    from "2.prems"(1) gd False have r: "splitExt K v sk off cs k' va d = Inr st'" by simp
    have "sk ! d < k' ! (off + d)"
      using "2.prems"(4) _ sk d t nq by (rule diverge_less) (use "2.prems"(3) in simp)
    with splitExt_inv [OF r l rest d o t] show ?thesis by simp
  qed
next
  case (3 K v sk off cs k' va)
  from "3.prems"(2) have cs: "cs = noChildren" and sk: "sk = drop off k" by simp_all
  from "3.prems"(1) obtain d where
    gd: "getDiffIndex (Node leafNode v sk off cs) k' = Inr d"
    by (cases "getDiffIndex (Node leafNode v sk off cs) k'") auto
  from getDiffIndex_Inr [OF gd] have
    t: "take d sk = take d (drop off k')"
    and dv: "d < length sk \<longrightarrow> off + d < length k' \<and> sk ! d \<noteq> k' ! (off + d)"
    by simp_all
  from "3.prems"(1) gd have d: "d < length sk" by (simp split: if_split_asm)
  with dv have o: "off + d < length k'" and nq: "sk ! d \<noteq> k' ! (off + d)" by simp_all
  from "3.prems"(1) gd d cs have r: "splitLeaf K v sk off noChildren k' va d = Inr st'"
    by simp
  have "take (length sk) (drop off k) = sk" using sk by simp
  with "3.prems"(4) have "sk ! d < k' ! (off + d)"
    using d t nq "3.prems"(3) by (intro diverge_less [of k k' off sk d]) simp_all
  with splitLeaf_inv [OF r d o t] show ?case by simp
next
  case (4 K v k off cs key' va)
  then show ?case by simp
next
  case (5 K v k off cs key' va)
  then show ?case by simp
qed


lemma collapsed_not_live: "collapsed s \<Longrightarrow> \<not> live s"
  by (cases s) (simp_all add: live_def)

lemma singlePath_hashed: "nodeType c = hashedNode \<Longrightarrow> singlePath c"
  by (cases c) simp

lemma filter_live_one:
  assumes "i < length cs" "\<forall>j<length cs. j \<noteq> i \<longrightarrow> \<not> live (cs ! j)"
  shows "length (filter live cs) \<le> 1"
proof -
  have "\<not> live x" if "x \<in> set (take i cs)" for x
  proof -
    from that obtain j where "j < i" "x = cs ! j"
      using assms(1) by (auto simp: in_set_conv_nth)
    with assms show ?thesis by simp
  qed
  then have a: "filter live (take i cs) = []" by (simp add: filter_empty_conv)
  have "\<not> live x" if "x \<in> set (drop (Suc i) cs)" for x
  proof -
    from that obtain j where "j < length cs - Suc i" "x = cs ! (Suc i + j)"
      by (auto simp: in_set_conv_nth)
    with assms show ?thesis by simp
  qed
  then have b: "filter live (drop (Suc i) cs) = []" by (simp add: filter_empty_conv)
  have "cs = take i cs @ cs ! i # drop (Suc i) cs"
    using assms(1) by (rule id_take_nth_drop)
  then have "filter live cs = filter live (take i cs @ cs ! i # drop (Suc i) cs)" by simp
  then show ?thesis using a b by simp
qed

lemma leftCollapsed_singlePath: "leftCollapsed k st \<Longrightarrow> singlePath st"
proof (induction k st rule: leftCollapsed.induct)
  case (1 k v sk off cs)
  let ?a = "unat (k ! off)"
  from "1.prems" obtain c where
    l: "length cs = 16" and a: "?a < 16"
    and c: "cs ! ?a = Some c" "leftCollapsed k c"
    and left: "\<forall>i<?a. collapsed (cs ! i)"
    and right: "\<forall>i. ?a < i \<and> i < 16 \<longrightarrow> cs ! i = None"
    unfolding leftCollapsed_branch by auto
  have ch: "child cs ?a = Some c" using c(1) l a by (simp add: child_def)
  have sc: "singlePath c" using "1.IH" [OF ch] c(2) by simp
  have other: "collapsed (cs ! j)" if "j < 16" "j \<noteq> ?a" for j
  proof (cases "j < ?a")
    case True
    with left show ?thesis by simp
  next
    case False
    with that right show ?thesis by simp
  qed
  have "length (filter live cs) \<le> 1"
    using a l other by (intro filter_live_one [of ?a]) (auto simp: collapsed_not_live)
  moreover have "case cs ! j of None \<Rightarrow> True | Some c \<Rightarrow> singlePath c" if "j < 16" for j
  proof (cases "j = ?a")
    case True
    with c sc show ?thesis by simp
  next
    case False
    with other [OF that] show ?thesis
      by (cases "cs ! j") (simp_all add: singlePath_hashed)
  qed
  ultimately show ?case using l by (simp add: list_all_length)
next
  case (2 k v sk off cs)
  from "2.prems" obtain c where
    l: "length cs = 16"
    and rest: "\<forall>i. 0 < i \<and> i < 16 \<longrightarrow> cs ! i = None"
    and c: "cs ! 0 = Some c" "leftCollapsed k c"
    unfolding leftCollapsed_ext by auto
  have ch: "child cs 0 = Some c" using c(1) l by (simp add: child_def)
  have sc: "singlePath c" using "2.IH" [OF ch] c(2) by simp
  have "length (filter live cs) \<le> 1"
    using l rest by (intro filter_live_one [of 0]) (auto simp: live_def)
  moreover have "case cs ! j of None \<Rightarrow> True | Some c \<Rightarrow> singlePath c" if "j < 16" for j
    using that rest c sc by (cases "j = 0") auto
  ultimately show ?case using l by (simp add: list_all_length)
next
  case (3 k v sk off cs)
  then have cs: "cs = noChildren" by simp
  have "filter live noChildren = []"
    by (simp add: noChildren_def live_def)
  then show ?case unfolding cs by (simp add: list_all_length)
next
  case (4 k v sk off cs)
  then show ?case by simp
next
  case (5 k v sk off cs)
  then show ?case by simp
qed

lemma TryUpdate_inv:
  assumes "TryUpdate K st b v = Inr (st', e)" "leftCollapsed (keyNibbles a) st"
    "keyOffset st = 0" "nibLess (keyNibbles a) (keyNibbles b)"
  shows "leftCollapsed (keyNibbles b) st' \<and> keyOffset st' = 0"
proof -
  from assms(1) have "insert_st K st (keyNibbles b) v = Inr st'"
    by (auto simp: TryUpdate_insert_st split: if_split_asm sum.splits)
  from insert_st_inv [OF this assms(2) _ assms(4)] assms(3) show ?thesis by simp
qed

lemma updates_inv:
  "updates K st kvs = Inr st' \<Longrightarrow> leftCollapsed (keyNibbles a) st \<Longrightarrow> keyOffset st = 0 \<Longrightarrow>
   ascending (a # map fst kvs) \<Longrightarrow>
   leftCollapsed (keyNibbles (last (a # map fst kvs))) st'"
proof (induction kvs arbitrary: a st)
  case Nil
  then show ?case by simp
next
  case (Cons kv kvs)
  obtain b v where kv: "kv = (b, v)" by (cases kv)
  from Cons.prems(1) kv obtain st1 e where
    t: "TryUpdate K st b v = Inr (st1, e)" and u: "updates K st1 kvs = Inr st'"
    by (cases "TryUpdate K st b v") auto
  from Cons.prems(4) kv have lt: "nibLess (keyNibbles a) (keyNibbles b)"
    and asc: "ascending (b # map fst kvs)" by simp_all
  from TryUpdate_inv [OF t Cons.prems(2,3) lt]
  have "leftCollapsed (keyNibbles b) st1" "keyOffset st1 = 0" by simp_all
  from Cons.IH [OF u this asc] kv show ?case by simp
qed

text \<open>
  The shape that insertion keeps. After every run of \<open>TryUpdate\<close> calls that all return,
  on a new trie and with keys in ascending order of their nibbles, the tree reached from
  the root is left-collapsed along the last key: every branch on the descent path has the
  path's child in slot \<open>k[off]\<close>, all slots to the left of it nil or in the hashed state
  and all slots to the right nil; so the nodes that are not hashed and are reached from
  the root without passing through a hashed node form one path. (A call that returns
  had a non-empty value; distinct keys are what strictly ascending gives.)
\<close>

theorem updates_left_collapsed:
  assumes "kvs \<noteq> []" "ascending (map fst kvs)" "updates K NewReStackTrie kvs = Inr st"
  shows "leftCollapsed (keyNibbles (fst (last kvs))) st \<and> singlePath st"
proof -
  from assms(1) obtain a v rest where kvs: "kvs = (a, v) # rest"
    by (cases kvs) auto
  let ?leaf = "Node leafNode v (keyNibbles a) 0 noChildren"
  have ne: "v \<noteq> []" using assms(3) kvs by (auto simp: TryUpdate_insert_st)
  then have "TryUpdate K NewReStackTrie a v = Inr (?leaf, None)"
    by (simp add: TryUpdate_insert_st insert_st_new)
  with assms(3) kvs have u: "updates K ?leaf rest = Inr st" by simp
  have "leftCollapsed (keyNibbles a) ?leaf" by simp
  from updates_inv [OF u this] assms(2) kvs
  have "leftCollapsed (keyNibbles (last (a # map fst rest))) st" by simp
  moreover have "last (a # map fst rest) = fst (last kvs)"
    unfolding kvs by (simp add: last_map)
  ultimately have "leftCollapsed (keyNibbles (fst (last kvs))) st" by simp
  then show ?thesis by (simp add: leftCollapsed_singlePath)
qed

theorem updates_left_collapsed_witness:
  "[([0x10], [0x61]), ([0x20], [0x62]), ([0x30], [0x63 :: byte])] \<noteq> ([] :: (byte list \<times> byte list) list)
   \<and> ascending (map fst [([0x10], [0x61 :: byte]), ([0x20], [0x62]), ([0x30], [0x63])])
   \<and> updates zeroSponge NewReStackTrie [([0x10], [0x61]), ([0x20], [0x62]), ([0x30], [0x63])]
     = Inr (Node branchNode [0x61] [] 0
         (noChildren[1 := Some (Node hashedNode [0xc2, 0x30, 0x61] [] 1 noChildren),
                     2 := Some (Node hashedNode [0xc2, 0x30, 0x62] [] 1 noChildren),
                     3 := Some (Node leafNode [0x63] [0] 1 noChildren)]))
   \<and> leftCollapsed (keyNibbles (fst (last [([0x10], [0x61]), ([0x20], [0x62]), ([0x30], [0x63 :: byte])])))
       (Node branchNode [0x61] [] 0
         (noChildren[1 := Some (Node hashedNode [0xc2, 0x30, 0x61] [] 1 noChildren),
                     2 := Some (Node hashedNode [0xc2, 0x30, 0x62] [] 1 noChildren),
                     3 := Some (Node leafNode [0x63] [0] 1 noChildren)]))
   \<and> singlePath (Node branchNode [0x61] [] 0
         (noChildren[1 := Some (Node hashedNode [0xc2, 0x30, 0x61] [] 1 noChildren),
                     2 := Some (Node hashedNode [0xc2, 0x30, 0x62] [] 1 noChildren),
                     3 := Some (Node leafNode [0x63] [0] 1 noChildren)]))"
proof -
  let ?kvs = "[([0x10], [0x61]), ([0x20], [0x62]), ([0x30], [0x63 :: byte])] :: (byte list \<times> byte list) list"
  let ?st = "Node branchNode [0x61] [] 0
         (noChildren[1 := Some (Node hashedNode [0xc2, 0x30, 0x61] [] 1 noChildren),
                     2 := Some (Node hashedNode [0xc2, 0x30, 0x62] [] 1 noChildren),
                     3 := Some (Node leafNode [0x63] [0] 1 noChildren)])"
  have h1: "?kvs \<noteq> []" by simp
  have h2: "ascending (map fst ?kvs)" by code_simp
  have h3: "updates zeroSponge NewReStackTrie ?kvs = Inr ?st" by code_simp
  from updates_left_collapsed [OF h1 h2 h3] h1 h2 h3 show ?thesis by simp
qed

text \<open>
  Claim C5. After every completed \<open>TryUpdate\<close> on keys in ascending order, every branch
  should have its children to the left of the descent path in the hashed state, so that
  the resident nodes that are not hashed form exactly one path from the root. The slots
  of the branches on the path are as the claim says (\<open>updates_left_collapsed\<close> above),
  but the resident nodes are not one path: the small path of the extension case of
  \<open>hash\<close> returns before \<open>st.children[0] = nil\<close>, the line with which the sponge path
  (and, for its slots, the branch case) releases the subtree, so an extension collapsed
  through it keeps the pointer to its branch, which is not in the hashed state. After
  the pairs (\<open>12 30\<close>, \<open>61\<close>), (\<open>12 40\<close>, \<open>62\<close>), (\<open>20\<close>, \<open>63\<close>) the root branch has
  the new leaf in slot 2 and in slot 1 a hashed node that still points to a branch node:
  two children with resident nodes that are not hashed below them.
\<close>

theorem hashed_extension_keeps_unhashed_branch:
  "updates zeroSponge NewReStackTrie
      [([0x12, 0x30], [0x61]), ([0x12, 0x40], [0x62]), ([0x20], [0x63])]
     = Inr (Node branchNode [0x61] [] 0
         (noChildren
           [1 := Some (Node hashedNode
                   [0xda, 0x81, 0x02, 0xd7, 0x80, 0x80, 0x80, 0x83, 0xc2, 0x30, 0x61,
                    0x83, 0xc2, 0x30, 0x62, 0x80, 0x80, 0x80, 0x80, 0x80, 0x80, 0x80,
                    0x80, 0x80, 0x80, 0x80, 0x80]
                   [] 1
                   (noChildren[0 := Some (Node branchNode [] [] 2 noChildren)])),
            2 := Some (Node leafNode [0x63] [0] 1 noChildren)]))
   \<and> \<not> residentSinglePath (Node branchNode [0x61] [] 0
         (noChildren
           [1 := Some (Node hashedNode
                   [0xda, 0x81, 0x02, 0xd7, 0x80, 0x80, 0x80, 0x83, 0xc2, 0x30, 0x61,
                    0x83, 0xc2, 0x30, 0x62, 0x80, 0x80, 0x80, 0x80, 0x80, 0x80, 0x80,
                    0x80, 0x80, 0x80, 0x80, 0x80]
                   [] 1
                   (noChildren[0 := Some (Node branchNode [] [] 2 noChildren)])),
            2 := Some (Node leafNode [0x63] [0] 1 noChildren)]))"
  by code_simp

end
